theory Spec2Isabelle
  imports Main "HOL-Library.Word" "HOL-Library.Signed_Division"
begin

unbundle bit_operations_syntax

section \<open>Errors and BigInt primitives\<close>

text \<open>
  Every exception the ECDSA module can raise is a value of \<open>error\<close>. The first three are
  raised by the JavaScript runtime itself (BigInt division by zero, a negative BigInt
  exponent, a typed-array \<open>set\<close> outside the target); the others are the
  \<open>throw\<close> statements of the source, named after their messages.
\<close>

datatype error =
    DivisionByZero
  | NegativeExponent
  | OffsetOutOfBounds
  | NotRelativelyPrime
  | CannotFindSquareRoot
  | InvalidPublicKey
  | UnknownEncodingFormat
  | InvalidSignature
  | InvalidSignatureSize

definition bindE :: "error + 'a \<Rightarrow> ('a \<Rightarrow> error + 'b) \<Rightarrow> error + 'b" where
  "bindE m f = (case m of Inl e \<Rightarrow> Inl e | Inr v \<Rightarrow> f v)"

text \<open>
  BigInt \<open>%\<close> and \<open>/\<close> truncate towards zero (\<open>smod\<close>, \<open>sdiv\<close>) and raise a RangeError
  when the divisor is zero; \<open>**\<close> raises a RangeError on a negative exponent.
\<close>

definition bigint_rem :: "int \<Rightarrow> int \<Rightarrow> error + int" where
  "bigint_rem x y = (if y = 0 then Inl DivisionByZero else Inr (x smod y))"

definition bigint_div :: "int \<Rightarrow> int \<Rightarrow> error + int" where
  "bigint_div x y = (if y = 0 then Inl DivisionByZero else Inr (x sdiv y))"

definition bigint_pow :: "int \<Rightarrow> int \<Rightarrow> error + int" where
  "bigint_pow x y = (if y < 0 then Inl NegativeExponent else Inr (x ^ nat y))"

section \<open>Field arithmetic (math.ts)\<close>

definition euclideanMod :: "int \<Rightarrow> int \<Rightarrow> error + int" where
  "euclideanMod x y =
     bindE (bigint_rem x y) (\<lambda>r. if r < 0 then Inr (r + y) else Inr r)"

text \<open>
  The \<open>while (remainder !== 0n)\<close> loop of \<open>inverseMod\<close>. Inside the loop the new divisor
  is the non-zero remainder, so \<open>%\<close> and \<open>/\<close> cannot raise there. The loop returns the
  two variables read after it: \<open>divisor\<close> and \<open>s2\<close>.
\<close>

function inverseMod_loop ::
  "int \<Rightarrow> int \<Rightarrow> int \<Rightarrow> int \<Rightarrow> int \<Rightarrow> int \<Rightarrow> int \<Rightarrow> int \<times> int" where
  "inverseMod_loop dividend divisor remainder quot s1 s2 s3 =
     (if remainder \<noteq> 0 then
        (let dividend' = divisor;
             divisor' = remainder;
             s1' = s2;
             s2' = s3;
             remainder' = dividend' smod divisor';
             quot' = dividend' sdiv divisor';
             s3' = s1' - quot' * s2'
         in inverseMod_loop dividend' divisor' remainder' quot' s1' s2' s3')
      else (divisor, s2))"
  by pat_completeness auto
termination
proof (relation "measure (\<lambda>(dividend, divisor, remainder, quot, s1, s2, s3). nat \<bar>remainder\<bar>)")
  show "wf (measure (\<lambda>(dividend, divisor, remainder, quot, s1, s2, s3). nat \<bar>remainder\<bar>))"
    by simp
next
  fix dividend divisor remainder quot s1 s2 s3 :: int
  fix x xa xb xc xd xe xf :: int
  assume r: "remainder \<noteq> 0" and d: "x = divisor" and e: "xa = remainder"
    and m: "xd = x smod xa"
  have "\<bar>divisor smod remainder\<bar> < \<bar>remainder\<bar>"
    using smod_int_range [of remainder divisor] r by auto
  then show "((x, xa, xd, xe, xb, xc, xf), (dividend, divisor, remainder, quot, s1, s2, s3))
      \<in> measure (\<lambda>(dividend, divisor, remainder, quot, s1, s2, s3). nat \<bar>remainder\<bar>)"
    using d e m by simp
qed

declare inverseMod_loop.simps [simp del]

definition inverseMod :: "int \<Rightarrow> int \<Rightarrow> error + int" where
  "inverseMod a0 n0 =
     (let n = (if n0 < 0 then n0 * (- 1) else n0) in
      bindE (if a0 < 0 then euclideanMod a0 n else Inr a0) (\<lambda>a.
      let dividend = a; divisor = n in
      bindE (bigint_rem dividend divisor) (\<lambda>remainder.
      bindE (bigint_div dividend divisor) (\<lambda>quot.
      let s1 = 1; s2 = 0; s3 = s1 - quot * s2 in
      case inverseMod_loop dividend divisor remainder quot s1 s2 s3 of
        (divisor', s2') \<Rightarrow>
          if divisor' \<noteq> 1 then Inl NotRelativelyPrime
          else if s2' < 0 then Inr (s2' + n)
          else Inr s2'))))"

text \<open>
  The \<open>while (y > 0)\<close> loop of \<open>powmod\<close>, on the variables \<open>res\<close>, \<open>x\<close>, \<open>y\<close>.
  \<open>y >> 1n\<close> is the floor division by two.
\<close>

function powmod_loop :: "int \<Rightarrow> int \<Rightarrow> int \<Rightarrow> int \<Rightarrow> error + int" where
  "powmod_loop res x y p =
     (if y > 0 then
        (case (if y smod 2 = 1 then euclideanMod (res * x) p else Inr res) of
           Inl e \<Rightarrow> Inl e
         | Inr res' \<Rightarrow>
             (case euclideanMod (x * x) p of
                Inl e \<Rightarrow> Inl e
              | Inr x' \<Rightarrow> powmod_loop res' x' (y div 2) p))
      else Inr res)"
  by pat_completeness auto
termination
  by (relation "measure (\<lambda>(res, x, y, p). nat y)") auto

declare powmod_loop.simps [simp del]

definition powmod :: "int \<Rightarrow> int \<Rightarrow> int \<Rightarrow> error + int" where
  "powmod x y p = bindE (bigint_rem x p) (\<lambda>x'. powmod_loop 1 x' y p)"

text \<open>
  The first two loops of \<open>tonelliShanks\<close> have no bound in the source: the halving of
  \<open>q\<close> never ends when \<open>p - 1 = 0\<close>, and the search for a non-residue \<open>z\<close> never ends
  when there is none. \<open>None\<close> is the run that does not return.
\<close>

partial_function (option) tonelliShanks_factor :: "int \<Rightarrow> int \<Rightarrow> (int \<times> int) option" where
  "tonelliShanks_factor q s =
     (if q smod 2 = 0 then tonelliShanks_factor (q sdiv 2) (s + 1) else Some (q, s))"

partial_function (option) tonelliShanks_findz :: "int \<Rightarrow> int \<Rightarrow> (error + int) option" where
  "tonelliShanks_findz z p =
     (case powmod z ((p - 1) sdiv 2) p of
        Inl e \<Rightarrow> Some (Inl e)
      | Inr v \<Rightarrow> if v \<noteq> p - 1 then tonelliShanks_findz (z + 1) p else Some (Inr z))"

declare tonelliShanks_factor.simps [code]
declare tonelliShanks_findz.simps [code]

text \<open>
  The inner \<open>while (i <= m)\<close> search of the main loop: it raises when \<open>i\<close> reaches \<open>m\<close>,
  leaves with \<open>i\<close> at the first \<open>t^(2^i) = 1\<close>, and falls through with \<open>i\<close> unchanged
  when \<open>i > m\<close>.
\<close>

function tonelliShanks_findi :: "int \<Rightarrow> int \<Rightarrow> int \<Rightarrow> int \<Rightarrow> error + int" where
  "tonelliShanks_findi t m p i =
     (if i \<le> m then
        (if i = m then Inl CannotFindSquareRoot
         else (case bindE (bigint_pow 2 i) (\<lambda>e. powmod t e p) of
                 Inl e \<Rightarrow> Inl e
               | Inr v \<Rightarrow> if v = 1 then Inr i else tonelliShanks_findi t m p (i + 1)))
      else Inr i)"
  by pat_completeness auto
termination
  by (relation "measure (\<lambda>(t, m, p, i). nat (m - i))") auto

declare tonelliShanks_findi.simps [simp del]

text \<open>
  One pass of the \<open>while (true)\<close> body after the test \<open>t === 1n\<close>: the new
  \<open>(r, t, c, m)\<close>, or the error raised on the way.
\<close>

definition tonelliShanks_step ::
  "int \<Rightarrow> int \<Rightarrow> int \<Rightarrow> int \<Rightarrow> int \<Rightarrow> error + (int \<times> int \<times> int \<times> int)" where
  "tonelliShanks_step r t c m p =
     bindE (tonelliShanks_findi t m p 1) (\<lambda>i.
     bindE (bigint_pow 2 (m - i - 1)) (\<lambda>e.
     bindE (powmod c e p) (\<lambda>b.
     bindE (powmod b 2 p) (\<lambda>c'.
     bindE (powmod b 2 p) (\<lambda>b2.
     bindE (euclideanMod (t * b2) p) (\<lambda>t'.
     bindE (euclideanMod (r * b) p) (\<lambda>r'.
     Inr (r', t', c', i))))))))"

function tonelliShanks_loop :: "int \<Rightarrow> int \<Rightarrow> int \<Rightarrow> int \<Rightarrow> int \<Rightarrow> error + int" where
  "tonelliShanks_loop r t c m p =
     (if t = 1 then Inr r
      else (case tonelliShanks_step r t c m p of
              Inl e \<Rightarrow> Inl e
            | Inr (r', t', c', m') \<Rightarrow> tonelliShanks_loop r' t' c' m' p))"
  by pat_completeness auto


lemma tonelliShanks_findi_lower: "tonelliShanks_findi t m p i = Inr j \<Longrightarrow> i \<le> j"
proof (induction t m p i rule: tonelliShanks_findi.induct)
  case (1 t m p i)
  show ?case
  proof (cases "i \<le> m \<and> i \<noteq> m")
    case True
    then obtain v where v: "bindE (bigint_pow 2 i) (\<lambda>e. powmod t e p) = Inr v"
      using "1.prems" by (subst (asm) tonelliShanks_findi.simps) (auto split: sum.splits)
    show ?thesis
    proof (cases "v = 1")
      case True
      with v \<open>i \<le> m \<and> i \<noteq> m\<close> "1.prems" show ?thesis
        by (subst (asm) tonelliShanks_findi.simps) simp
    next
      case False
      with v \<open>i \<le> m \<and> i \<noteq> m\<close> "1.prems" have "tonelliShanks_findi t m p (i + 1) = Inr j"
        by (subst (asm) tonelliShanks_findi.simps) simp
      with "1.IH" [of v] v False \<open>i \<le> m \<and> i \<noteq> m\<close> show ?thesis
        by simp
    qed
  next
    case False
    with "1.prems" show ?thesis
      by (subst (asm) tonelliShanks_findi.simps) (auto split: if_splits)
  qed
qed

lemma tonelliShanks_step_decreases:
  assumes "tonelliShanks_step r t c m p = Inr (r', t', c', m')"
  shows "1 \<le> m' \<and> m' < m"
proof -
  from assms obtain i where i: "tonelliShanks_findi t m p 1 = Inr i"
    and rest: "bindE (bigint_pow 2 (m - i - 1)) (\<lambda>e.
       bindE (powmod c e p) (\<lambda>b.
       bindE (powmod b 2 p) (\<lambda>c'.
       bindE (powmod b 2 p) (\<lambda>b2.
       bindE (euclideanMod (t * b2) p) (\<lambda>t'.
       bindE (euclideanMod (r * b) p) (\<lambda>r'.
       Inr (r', t', c', i))))))) = Inr (r', t', c', m')"
    unfolding tonelliShanks_step_def bindE_def by (auto split: sum.splits)
  from rest have "m' = i" and "\<not> m - i - 1 < 0"
    unfolding bindE_def bigint_pow_def by (auto split: sum.splits if_splits)
  with tonelliShanks_findi_lower [OF i] show ?thesis by simp
qed

termination tonelliShanks_loop
proof (relation "measure (\<lambda>(r, t, c, m, p). nat m)")
  show "wf (measure (\<lambda>(r, t, c, m, p). nat m))" by simp
next
  fix r t c m p :: int and x2 :: "int \<times> int \<times> int \<times> int" and x y :: int
    and xa :: "int \<times> int \<times> int" and ya :: "int \<times> int" and xb xc yb :: int
  assume "tonelliShanks_step r t c m p = Inr x2" "(x, xa) = x2" "(xb, ya) = xa" "(xc, yb) = ya"
  then have "tonelliShanks_step r t c m p = Inr (x, xb, xc, yb)" by simp
  from tonelliShanks_step_decreases [OF this]
  show "((x, xb, xc, yb, p), r, t, c, m, p) \<in> measure (\<lambda>(r, t, c, m, p). nat m)"
    by simp
qed

declare tonelliShanks_loop.simps [simp del]

definition tonelliShanks :: "int \<Rightarrow> int \<Rightarrow> (error + int) option" where
  "tonelliShanks n p =
     (if p smod 4 = 3 then Some (powmod n ((p + 1) sdiv 4) p)
      else (case powmod n ((p - 1) sdiv 2) p of
              Inl e \<Rightarrow> Some (Inl e)
            | Inr v \<Rightarrow>
                if v = p - 1 then Some (Inl CannotFindSquareRoot)
                else Option.bind (tonelliShanks_factor (p - 1) 0) (\<lambda>(q, s).
                     Option.bind (tonelliShanks_findz 2 p) (\<lambda>zr.
                     Some (bindE zr (\<lambda>z.
                           bindE (powmod n ((q + 1) sdiv 2) p) (\<lambda>r.
                           bindE (powmod n q p) (\<lambda>t.
                           bindE (powmod z q p) (\<lambda>c.
                           tonelliShanks_loop r t c s p)))))))))"

section \<open>Byte utilities\<close>

text \<open>
  Modelled from the spec: \<open>bigIntFromBytes\<close> and \<open>bigIntBytes\<close> are imported from the
  package \<open>@oslojs/binary\<close>, which is not part of the sources. The spec describes them as
  the big-endian conversion between arbitrary-precision integers and byte sequences:
  \<open>bigIntFromBytes\<close> reads a byte sequence as a big-endian integer, \<open>bigIntBytes\<close> writes
  the magnitude of an integer big-endian in as few bytes as it takes, at least one.
\<close>

type_synonym bytes = "8 word list"

definition bigIntFromBytes :: "bytes \<Rightarrow> int" where
  "bigIntFromBytes bs = foldl (\<lambda>decoded b. decoded * 256 + uint b) 0 bs"

function bigIntBytes_nat :: "nat \<Rightarrow> bytes" where
  "bigIntBytes_nat v =
     (if v < 256 then [of_nat v] else bigIntBytes_nat (v div 256) @ [of_nat (v mod 256)])"
  by pat_completeness auto
termination
  by (relation "measure (\<lambda>v. v)") auto

declare bigIntBytes_nat.simps [simp del]

definition bigIntBytes :: "int \<Rightarrow> bytes" where
  "bigIntBytes v = bigIntBytes_nat (nat \<bar>v\<bar>)"

text \<open>
  \<open>k.toString(2).length\<close>: the number of binary digits of the magnitude (one digit for
  zero), and one more character for the sign of a negative number.
\<close>

function binary_digits :: "nat \<Rightarrow> nat" where
  "binary_digits v = (if v < 2 then 1 else 1 + binary_digits (v div 2))"
  by pat_completeness auto
termination
  by (relation "measure (\<lambda>v. v)") auto

declare binary_digits.simps [simp del]

definition toString2_length :: "int \<Rightarrow> nat" where
  "toString2_length k =
     (if k < 0 then 1 + binary_digits (nat (- k)) else binary_digits (nat k))"

text \<open>
  \<open>Uint8Array.prototype.set(source, offset)\<close>: a RangeError unless the source fits into
  the target at the offset. Reading a typed array outside its bounds gives \<open>undefined\<close>,
  which the shift in \<open>multiply\<close> turns into 0.
\<close>

definition typed_set :: "bytes \<Rightarrow> bytes \<Rightarrow> int \<Rightarrow> error + bytes" where
  "typed_set target source offset =
     (if offset < 0 \<or> offset + int (length source) > int (length target)
      then Inl OffsetOutOfBounds
      else Inr (take (nat offset) target @ source
                @ drop (nat offset + length source) target))"

definition byte_at :: "bytes \<Rightarrow> int \<Rightarrow> 8 word" where
  "byte_at bs i = (if 0 \<le> i \<and> i < int (length bs) then bs ! nat i else 0)"

section \<open>The curve group (curve.ts)\<close>

record ECDSAPoint =
  point_x :: int
  point_y :: int

record JacobianPoint =
  jac_x :: int
  jac_y :: int
  jac_z :: int

record ECDSANamedCurve =
  curve_p :: int
  curve_a :: int
  curve_b :: int
  curve_g :: ECDSAPoint
  curve_n :: int
  curve_cofactor :: int
  curve_size :: nat
  curve_objectIdentifier :: string

definition isAtInfinity :: "JacobianPoint \<Rightarrow> bool" where
  "isAtInfinity point \<longleftrightarrow> jac_x point = 0 \<and> jac_y point = 1 \<and> jac_z point = 0"

definition pointAtInfinity :: JacobianPoint where
  "pointAtInfinity = \<lparr>jac_x = 0, jac_y = 1, jac_z = 0\<rparr>"

definition fromAffine :: "ECDSAPoint \<Rightarrow> JacobianPoint" where
  "fromAffine point = \<lparr>jac_x = point_x point, jac_y = point_y point, jac_z = 1\<rparr>"

definition doubleJacobian :: "ECDSANamedCurve \<Rightarrow> JacobianPoint \<Rightarrow> error + JacobianPoint" where
  "doubleJacobian curve point =
     (if isAtInfinity point then Inr point
      else if jac_y point = 0 then Inr pointAtInfinity
      else
        bindE (euclideanMod (4 * jac_x point * jac_y point ^ 2) (curve_p curve)) (\<lambda>s.
        bindE (euclideanMod (3 * jac_x point ^ 2 + curve_a curve * jac_z point ^ 4)
                 (curve_p curve)) (\<lambda>m.
        bindE (euclideanMod (m ^ 2 - 2 * s) (curve_p curve)) (\<lambda>resultx.
        bindE (euclideanMod (m * (s - resultx) - 8 * jac_y point ^ 4) (curve_p curve)) (\<lambda>resulty.
        bindE (euclideanMod (2 * jac_y point * jac_z point) (curve_p curve)) (\<lambda>resultz.
        Inr \<lparr>jac_x = resultx, jac_y = resulty, jac_z = resultz\<rparr>))))))"

definition addJacobian ::
  "ECDSANamedCurve \<Rightarrow> JacobianPoint \<Rightarrow> JacobianPoint \<Rightarrow> error + JacobianPoint" where
  "addJacobian curve point1 point2 =
     (if isAtInfinity point1 then Inr point2
      else if isAtInfinity point2 then Inr point1
      else
        (let point1zz = jac_z point1 ^ 2; point2zz = jac_z point2 ^ 2 in
         bindE (euclideanMod (jac_x point1 * point2zz) (curve_p curve)) (\<lambda>u1.
         bindE (euclideanMod (jac_x point2 * point1zz) (curve_p curve)) (\<lambda>u2.
         bindE (euclideanMod (jac_y point1 * point2zz * jac_z point2) (curve_p curve)) (\<lambda>s1.
         bindE (euclideanMod (jac_y point2 * point1zz * jac_z point1) (curve_p curve)) (\<lambda>s2.
         if u1 = u2 then
           (if s1 \<noteq> s2 then Inr pointAtInfinity else doubleJacobian curve point1)
         else
           (let h = u2 - u1; r = s2 - s1 in
            bindE (euclideanMod (r ^ 2 - h ^ 3 - 2 * u1 * h ^ 2) (curve_p curve)) (\<lambda>point3x.
            bindE (euclideanMod (r * (u1 * h ^ 2 - point3x) - s1 * h ^ 3)
                     (curve_p curve)) (\<lambda>point3y.
            bindE (euclideanMod (h * jac_z point1 * jac_z point2) (curve_p curve)) (\<lambda>point3z.
            Inr \<lparr>jac_x = point3x, jac_y = point3y, jac_z = point3z\<rparr>))))))))))"

text \<open>The identity is \<open>null\<close> in the source: \<open>None\<close> here.\<close>

definition toAffine :: "ECDSANamedCurve \<Rightarrow> JacobianPoint \<Rightarrow> error + ECDSAPoint option" where
  "toAffine curve point =
     (if isAtInfinity point then Inr None
      else
        bindE (inverseMod (jac_z point) (curve_p curve)) (\<lambda>inverseZ.
        let inverseZ2 = inverseZ ^ 2 in
        bindE (euclideanMod (jac_x point * inverseZ2) (curve_p curve)) (\<lambda>ax.
        bindE (euclideanMod (jac_y point * inverseZ2 * inverseZ) (curve_p curve)) (\<lambda>ay.
        Inr (Some \<lparr>point_x = ax, point_y = ay\<rparr>)))))"

definition add :: "ECDSANamedCurve \<Rightarrow> ECDSAPoint \<Rightarrow> ECDSAPoint \<Rightarrow> error + ECDSAPoint option" where
  "add curve point1 point2 =
     bindE (addJacobian curve (fromAffine point1) (fromAffine point2)) (toAffine curve)"

text \<open>
  The \<open>for\<close> loop of \<open>multiply\<close>, from counter \<open>i\<close> on, over the variables \<open>res\<close> and
  \<open>temp\<close>.
\<close>

function multiply_loop ::
  "ECDSANamedCurve \<Rightarrow> bytes \<Rightarrow> nat \<Rightarrow> nat \<Rightarrow> JacobianPoint \<Rightarrow> JacobianPoint
     \<Rightarrow> error + JacobianPoint" where
  "multiply_loop curve kBytes bitLength i res temp =
     (if i < bitLength then
        (let byte = byte_at kBytes (int (length kBytes) - 1 - int (i div 8)) in
         case (if drop_bit (i mod 8) byte AND 1 \<noteq> 0 then addJacobian curve res temp
               else Inr res) of
           Inl e \<Rightarrow> Inl e
         | Inr res' \<Rightarrow>
             (case doubleJacobian curve temp of
                Inl e \<Rightarrow> Inl e
              | Inr temp' \<Rightarrow> multiply_loop curve kBytes bitLength (i + 1) res' temp'))
      else Inr res)"
  by pat_completeness auto
termination
  by (relation "measure (\<lambda>(curve, kBytes, bitLength, i, res, temp). bitLength - i)") auto

declare multiply_loop.simps [simp del]

definition multiply :: "ECDSANamedCurve \<Rightarrow> int \<Rightarrow> ECDSAPoint \<Rightarrow> error + ECDSAPoint option" where
  "multiply curve k point =
     (let kBytes = bigIntBytes k;
          bitLength = toString2_length k;
          res = pointAtInfinity;
          temp = \<lparr>jac_x = point_x point, jac_y = point_y point, jac_z = 1\<rparr>
      in bindE (multiply_loop curve kBytes bitLength 0 res temp) (toAffine curve))"

definition isOnCurve :: "ECDSANamedCurve \<Rightarrow> ECDSAPoint \<Rightarrow> error + bool" where
  "isOnCurve curve point =
     bindE (if curve_cofactor curve \<noteq> 1
            then bindE (multiply curve (curve_n curve) point) (\<lambda>np. Inr (np \<noteq> None))
            else Inr False) (\<lambda>reject.
     if reject then Inr False
     else
       bindE (euclideanMod (point_y point ^ 2) (curve_p curve)) (\<lambda>lhs.
       bindE (euclideanMod (point_x point ^ 3 + curve_a curve * point_x point + curve_b curve)
                (curve_p curve)) (\<lambda>rhs.
       Inr (lhs = rhs))))"

section \<open>Keys, signatures and their encodings (ecdsa.ts)\<close>

record ECDSAPublicKey =
  key_curve :: ECDSANamedCurve
  key_x :: int
  key_y :: int

record ECDSASignature =
  sig_r :: int
  sig_s :: int

text \<open>The constructor of \<open>ECDSASignature\<close>, with its TypeError.\<close>

definition new_ECDSASignature :: "int \<Rightarrow> int \<Rightarrow> error + ECDSASignature" where
  "new_ECDSASignature r s =
     (if r < 1 \<or> s < 1 then Inl InvalidSignature else Inr \<lparr>sig_r = r, sig_s = s\<rparr>)"

definition encodeSEC1Uncompressed :: "ECDSAPublicKey \<Rightarrow> error + bytes" where
  "encodeSEC1Uncompressed key =
     (let size = curve_size (key_curve key);
          bytes0 = (replicate (1 + size * 2) 0) [0 := 0x04];
          xBytes = bigIntBytes (key_x key);
          yBytes = bigIntBytes (key_y key)
      in bindE (typed_set bytes0 xBytes (1 + int size - int (length xBytes))) (\<lambda>bytes1.
         typed_set bytes1 yBytes (1 + int size * 2 - int (length yBytes))))"

definition encodeSEC1Compressed :: "ECDSAPublicKey \<Rightarrow> error + bytes" where
  "encodeSEC1Compressed key =
     (let size = curve_size (key_curve key);
          bytes0 = (replicate (1 + size) 0)
                     [0 := (if key_y key smod 2 = 0 then 0x02 else 0x03)];
          xBytes = bigIntBytes (key_x key)
      in typed_set bytes0 xBytes (1 + int size - int (length xBytes)))"

text \<open>
  \<open>decodeSEC1PublicKey\<close> calls \<open>tonelliShanks\<close>, so it inherits the runs that do not
  return (\<open>None\<close>).
\<close>

definition decodeSEC1PublicKey ::
  "ECDSANamedCurve \<Rightarrow> bytes \<Rightarrow> (error + ECDSAPublicKey) option" where
  "decodeSEC1PublicKey curve bytes =
     (if length bytes < 1 then Some (Inl InvalidPublicKey)
      else if bytes ! 0 = 0x04 then
        (if length bytes \<noteq> curve_size curve * 2 + 1 then Some (Inl InvalidPublicKey)
         else
           (let x = bigIntFromBytes (take (curve_size curve) (drop 1 bytes));
                y = bigIntFromBytes (drop (curve_size curve + 1) bytes)
            in Some (Inr \<lparr>key_curve = curve, key_x = x, key_y = y\<rparr>)))
      else if bytes ! 0 = 0x02 then
        (if length bytes \<noteq> curve_size curve + 1 then Some (Inl InvalidPublicKey)
         else
           (let x = bigIntFromBytes (drop 1 bytes) in
            case euclideanMod (x ^ 3 + curve_a curve * x + curve_b curve) (curve_p curve) of
              Inl e \<Rightarrow> Some (Inl e)
            | Inr y2 \<Rightarrow>
                Option.bind (tonelliShanks y2 (curve_p curve)) (\<lambda>yr.
                Some (bindE yr (\<lambda>y.
                  if y smod 2 = 0 then Inr \<lparr>key_curve = curve, key_x = x, key_y = y\<rparr>
                  else Inr \<lparr>key_curve = curve, key_x = x, key_y = curve_p curve - y\<rparr>)))))
      else if bytes ! 0 = 0x03 then
        (if length bytes \<noteq> curve_size curve + 1 then Some (Inl InvalidPublicKey)
         else
           (let x = bigIntFromBytes (drop 1 bytes) in
            case euclideanMod (x ^ 3 + curve_a curve * x + curve_b curve) (curve_p curve) of
              Inl e \<Rightarrow> Some (Inl e)
            | Inr y2 \<Rightarrow>
                Option.bind (tonelliShanks y2 (curve_p curve)) (\<lambda>yr.
                Some (bindE yr (\<lambda>y.
                  if y smod 2 = 1 then Inr \<lparr>key_curve = curve, key_x = x, key_y = y\<rparr>
                  else Inr \<lparr>key_curve = curve, key_x = x, key_y = curve_p curve - y\<rparr>)))))
      else Some (Inl UnknownEncodingFormat))"

definition decodeIEEEP1363ECDSASignature ::
  "ECDSANamedCurve \<Rightarrow> bytes \<Rightarrow> error + ECDSASignature" where
  "decodeIEEEP1363ECDSASignature curve bytes =
     (if length bytes \<noteq> curve_size curve * 2 then Inl InvalidSignatureSize
      else
        (let r = bigIntFromBytes (take (curve_size curve) bytes);
             s = bigIntFromBytes (drop (curve_size curve) bytes)
         in new_ECDSASignature r s))"

section \<open>The verifier\<close>

definition verifyECDSASignature ::
  "ECDSAPublicKey \<Rightarrow> bytes \<Rightarrow> ECDSASignature \<Rightarrow> error + bool" where
  "verifyECDSASignature publicKey hash signature =
     (let curve = key_curve publicKey;
          q = \<lparr>point_x = key_x publicKey, point_y = key_y publicKey\<rparr>
      in
      bindE (isOnCurve curve q) (\<lambda>onCurve.
      if \<not> onCurve then Inr False
      else
        bindE (multiply curve (curve_n curve) q) (\<lambda>nq.
        if nq \<noteq> None then Inr False
        else
          (let e = take (curve_size curve) hash in
           bindE (inverseMod (sig_s signature) (curve_n curve)) (\<lambda>w1.
           bindE (euclideanMod (bigIntFromBytes e * w1) (curve_n curve)) (\<lambda>u1.
           bindE (multiply curve u1 (curve_g curve)) (\<lambda>u1G_opt.
           case u1G_opt of
             None \<Rightarrow> Inr False
           | Some u1G \<Rightarrow>
               bindE (inverseMod (sig_s signature) (curve_n curve)) (\<lambda>w2.
               bindE (euclideanMod (sig_r signature * w2) (curve_n curve)) (\<lambda>u2.
               bindE (multiply curve u2 q) (\<lambda>u2Q_opt.
               case u2Q_opt of
                 None \<Rightarrow> Inr False
               | Some u2Q \<Rightarrow>
                   bindE (add curve u1G u2Q) (\<lambda>coord1_opt.
                   case coord1_opt of
                     None \<Rightarrow> Inr False
                   | Some coord1 \<Rightarrow>
                       bindE (euclideanMod (sig_r signature) (curve_n curve)) (\<lambda>rn.
                       Inr (rn = point_x coord1)))))))))))))"

section \<open>A small curve for evaluation\<close>

text \<open>
  The curve \<open>y\<^sup>2 = x\<^sup>3 + 2x + 7\<close> over \<open>GF(11)\<close>: it has 7 points, the identity included,
  so its group has prime order 7 and is generated by \<open>(6, 2)\<close>. It is a value of
  \<open>ECDSANamedCurve\<close> like the registry curves, with one-byte field elements, on which the
  operations can be evaluated step by step.
\<close>

definition curve_F11 :: ECDSANamedCurve where
  "curve_F11 =
     \<lparr>curve_p = 11, curve_a = 2, curve_b = 7, curve_g = \<lparr>point_x = 6, point_y = 2\<rparr>,
      curve_n = 7, curve_cofactor = 1, curve_size = 1, curve_objectIdentifier = ''F11''\<rparr>"

section \<open>Byte sequences\<close>

lemma bigIntFromBytes_snoc: "bigIntFromBytes (bs @ [b]) = bigIntFromBytes bs * 256 + uint b"
  by (simp add: bigIntFromBytes_def)

text \<open>\<open>bigIntFromBytes\<close> is the big-endian reading: byte \<open>i\<close> weighs \<open>256 ^ (length - 1 - i)\<close>.\<close>

lemma bigIntFromBytes_big_endian:
  "bigIntFromBytes bs = (\<Sum>i<length bs. uint (bs ! i) * 256 ^ (length bs - 1 - i))"
proof (induction bs rule: rev_induct)
  case Nil
  show ?case by (simp add: bigIntFromBytes_def)
next
  case (snoc b bs)
  have "(\<Sum>i<length bs. uint ((bs @ [b]) ! i) * 256 ^ (length (bs @ [b]) - 1 - i))
      = (\<Sum>i<length bs. uint (bs ! i) * 256 ^ (length bs - 1 - i) * 256)"
  proof (rule sum.cong)
    fix i assume "i \<in> {..<length bs}"
    then have i: "i < length bs" by simp
    then have "length bs - i = Suc (length bs - 1 - i)" by simp
    with i show "uint ((bs @ [b]) ! i) * 256 ^ (length (bs @ [b]) - 1 - i)
        = uint (bs ! i) * 256 ^ (length bs - 1 - i) * 256"
      by (simp add: nth_append)
  qed simp
  then show ?case
    by (simp add: bigIntFromBytes_snoc snoc.IH sum_distrib_right)
qed

section \<open>Signature decoding\<close>

text \<open>
  C8. \<open>decodeIEEEP1363ECDSASignature\<close> raises its size error on every buffer whose length
  is not exactly twice the curve size. On a buffer of exactly that length it hands the
  big-endian value of the first \<open>size\<close> bytes as \<open>r\<close> and of the remaining \<open>size\<close> bytes
  as \<open>s\<close> to the signature constructor; the two halves are the whole buffer, nothing is
  dropped or added.
\<close>

theorem decodeIEEEP1363_exact_length:
  "(length bytes \<noteq> 2 * curve_size curve \<longrightarrow>
      decodeIEEEP1363ECDSASignature curve bytes = Inl InvalidSignatureSize) \<and>
   (length bytes = 2 * curve_size curve \<longrightarrow>
      decodeIEEEP1363ECDSASignature curve bytes =
        new_ECDSASignature (bigIntFromBytes (take (curve_size curve) bytes))
                           (bigIntFromBytes (drop (curve_size curve) bytes)) \<and>
      length (take (curve_size curve) bytes) = curve_size curve \<and>
      length (drop (curve_size curve) bytes) = curve_size curve \<and>
      take (curve_size curve) bytes @ drop (curve_size curve) bytes = bytes)"
  by (simp add: decodeIEEEP1363ECDSASignature_def Let_def mult.commute)

theorem decodeIEEEP1363_exact_length_witness:
  "length [3, 5 :: 8 word] = 2 * curve_size curve_F11 \<and>
   decodeIEEEP1363ECDSASignature curve_F11 [3, 5] = Inr \<lparr>sig_r = 3, sig_s = 5\<rparr> \<and>
   length [3 :: 8 word] \<noteq> 2 * curve_size curve_F11 \<and>
   decodeIEEEP1363ECDSASignature curve_F11 [3] = Inl InvalidSignatureSize"
  using decodeIEEEP1363_exact_length [of "[3, 5]" curve_F11]
    decodeIEEEP1363_exact_length [of "[3]" curve_F11]
  by (simp add: curve_F11_def new_ECDSASignature_def bigIntFromBytes_def)

section \<open>Public-key decoding\<close>

text \<open>
  C10. On a buffer of length \<open>2 * size + 1\<close> that starts with \<open>0x04\<close>,
  \<open>decodeSEC1PublicKey\<close> returns the key whose coordinates are the big-endian values of
  the two halves after the prefix, whatever they are: no curve equation and no subgroup
  test is involved. The witness decodes \<open>(1, 1)\<close>, which is not on the curve.
\<close>

theorem decodeSEC1_uncompressed_unchecked:
  assumes "length bytes = 2 * curve_size curve + 1" and "bytes ! 0 = 0x04"
  shows "decodeSEC1PublicKey curve bytes =
           Some (Inr \<lparr>key_curve = curve,
                       key_x = bigIntFromBytes (take (curve_size curve) (drop 1 bytes)),
                       key_y = bigIntFromBytes (drop (curve_size curve + 1) bytes)\<rparr>)"
  using assms by (simp add: decodeSEC1PublicKey_def Let_def mult.commute)

theorem decodeSEC1_uncompressed_unchecked_witness:
  "length [4, 1, 1 :: 8 word] = 2 * curve_size curve_F11 + 1 \<and>
   [4, 1, 1 :: 8 word] ! 0 = 0x04 \<and>
   decodeSEC1PublicKey curve_F11 [4, 1, 1]
     = Some (Inr \<lparr>key_curve = curve_F11, key_x = 1, key_y = 1\<rparr>) \<and>
   isOnCurve curve_F11 \<lparr>point_x = 1, point_y = 1\<rparr> = Inr False"
proof -
  have len: "length [4, 1, 1 :: 8 word] = 2 * curve_size curve_F11 + 1"
    by (simp add: curve_F11_def)
  have hd: "[4, 1, 1 :: 8 word] ! 0 = 0x04" by simp
  have off: "isOnCurve curve_F11 \<lparr>point_x = 1, point_y = 1\<rparr> = Inr False"
    by code_simp
  have sz: "curve_size curve_F11 = 1" by (simp add: curve_F11_def)
  show ?thesis
    using decodeSEC1_uncompressed_unchecked [OF len hd] len off
    by (simp add: sz bigIntFromBytes_def)
qed

section \<open>Modular reduction\<close>

lemma bindE_simps [simp]:
  "bindE (Inl e) f = Inl e"
  "bindE (Inr v) f = f v"
  by (simp_all add: bindE_def)

lemma smod_nonneg: "0 \<le> x \<Longrightarrow> x smod y = x mod \<bar>y\<bar>" for x y :: int
  by (cases "x = 0") (simp_all add: signed_modulo_int_def sgn_if)

lemma smod_neg: "x < 0 \<Longrightarrow> x smod y = - ((- x) mod \<bar>y\<bar>)" for x y :: int
  by (simp add: signed_modulo_int_def sgn_if)

lemma euclideanMod_pos: "0 < y \<Longrightarrow> euclideanMod x y = Inr (x mod y)"
proof -
  assume y: "0 < y"
  show ?thesis
  proof (cases "0 \<le> x")
    case True
    have "\<not> x mod y < 0" using y by (simp add: not_less)
    with True y show ?thesis
      by (simp add: euclideanMod_def bigint_rem_def smod_nonneg)
  next
    case False
    then have x: "x < 0" by simp
    show ?thesis
    proof (cases "(- x) mod y = 0")
      case True
      then have "x mod y = 0" by (simp add: mod_eq_0_iff_dvd)
      with True x y show ?thesis
        by (simp add: euclideanMod_def bigint_rem_def smod_neg)
    next
      case nz: False
      have "0 \<le> (- x) mod y" "(- x) mod y < y" using y by simp_all
      with nz have pos: "0 < (- x) mod y" by simp
      have "x mod y = y - (- x) mod y"
        using nz zmod_zminus1_eq_if [of "- x" y] by simp
      with pos x y show ?thesis
        by (simp add: euclideanMod_def bigint_rem_def smod_neg)
    qed
  qed
qed

lemma euclideanMod_zero: "euclideanMod x 0 = Inl DivisionByZero"
  by (simp add: euclideanMod_def bigint_rem_def)

lemma mod_abs_shift: "(x + y * k) mod \<bar>y\<bar> = x mod \<bar>y\<bar>" for x y k :: int
proof (cases "0 \<le> y")
  case True
  then show ?thesis by simp
next
  case False
  then have "\<bar>y\<bar> = - y" by simp
  moreover have "x + y * k = x + (- y) * (- k)" by simp
  ultimately show ?thesis
    using mod_mult_self2 [of x "- y" "- k"] by simp
qed

lemma euclideanMod_shift:
  assumes "0 \<le> x \<longleftrightarrow> 0 \<le> x + y * k"
  shows "euclideanMod (x + y * k) y = euclideanMod x y"
proof -
  have "(x + y * k) smod y = x smod y"
  proof (cases "0 \<le> x")
    case True
    with assms have "0 \<le> x + y * k" by simp
    with True show ?thesis by (simp add: smod_nonneg mod_abs_shift)
  next
    case False
    with assms have "x + y * k < 0" and "x < 0" by simp_all
    moreover have "(- x - y * k) mod \<bar>y\<bar> = (- x) mod \<bar>y\<bar>"
      using mod_abs_shift [of "- x" y "- k"] by simp
    ultimately show ?thesis by (simp add: smod_neg)
  qed
  then show ?thesis by (simp add: euclideanMod_def bigint_rem_def)
qed

section \<open>The verifier and the residue of \<open>r\<close>\<close>

text \<open>
  C9. \<open>verifyECDSASignature\<close> reads \<open>r\<close> only through reductions modulo the curve order:
  for \<open>r \<ge> 1\<close> with \<open>r + n \<ge> 1\<close> (and any \<open>s\<close>), the signatures \<open>(r, s)\<close> and
  \<open>(r + n, s)\<close> give the same result, the same boolean or the same error. The witness is
  an accepted signature on the small curve that stays accepted with \<open>r + n\<close>.
\<close>

theorem verify_depends_on_r_mod_n:
  assumes "1 \<le> r" and "1 \<le> r + curve_n (key_curve publicKey)"
  shows "verifyECDSASignature publicKey hash \<lparr>sig_r = r + curve_n (key_curve publicKey), sig_s = s\<rparr>
       = verifyECDSASignature publicKey hash \<lparr>sig_r = r, sig_s = s\<rparr>"
proof -
  define n where "n = curve_n (key_curve publicKey)"
  have u2: "euclideanMod ((r + n) * w) n = euclideanMod (r * w) n" for w
  proof -
    have "(0 \<le> r * w) \<longleftrightarrow> (0 \<le> r * w + n * w)"
      using assms unfolding n_def [symmetric]
      by (metis distrib_right zero_le_mult_iff not_one_le_zero order_trans zero_le_one linorder_not_le mult_less_0_iff order_less_le)
    from euclideanMod_shift [OF this] show ?thesis by (simp add: algebra_simps)
  qed
  have fin: "euclideanMod (r + n) n = euclideanMod r n"
    using euclideanMod_shift [of r n 1] assms unfolding n_def [symmetric] by simp
  show ?thesis
    unfolding verifyECDSASignature_def n_def [symmetric] Let_def
    by (simp add: u2 fin cong: if_cong option.case_cong)
qed


theorem verify_depends_on_r_mod_n_witness:
  "(1::int) \<le> 6 \<and>
   1 \<le> 6 + curve_n (key_curve \<lparr>key_curve = curve_F11, key_x = 7, key_y = 10\<rparr>) \<and>
   verifyECDSASignature \<lparr>key_curve = curve_F11, key_x = 7, key_y = 10\<rparr> [1]
     \<lparr>sig_r = 6, sig_s = 5\<rparr> = Inr True \<and>
   verifyECDSASignature \<lparr>key_curve = curve_F11, key_x = 7, key_y = 10\<rparr> [1]
     \<lparr>sig_r = 13, sig_s = 5\<rparr> = Inr True"
proof -
  have n: "curve_n curve_F11 = 7"
    by (simp add: curve_F11_def)
  have acc: "verifyECDSASignature \<lparr>key_curve = curve_F11, key_x = 7, key_y = 10\<rparr> [1]
     \<lparr>sig_r = 6, sig_s = 5\<rparr> = Inr True"
    by code_simp
  have "(1::int) \<le> 6" by simp
  moreover have "1 \<le> 6 + curve_n (key_curve \<lparr>key_curve = curve_F11, key_x = 7, key_y = 10\<rparr>)"
    by (simp add: n)
  ultimately show ?thesis
    using verify_depends_on_r_mod_n [where r = 6 and s = 5 and hash = "[1]"
        and publicKey = "\<lparr>key_curve = curve_F11, key_x = 7, key_y = 10\<rparr>"] acc
    by (simp add: n)
qed

section \<open>The modular inverse\<close>

lemma abs_bezout_step:
  fixes s1 s2 q :: int
  assumes "(0 \<le> s1 \<and> s2 \<le> 0) \<or> (s1 \<le> 0 \<and> 0 \<le> s2)" and "0 \<le> q"
  shows "\<bar>s1 - q * s2\<bar> = \<bar>s1\<bar> + q * \<bar>s2\<bar>"
    and "(0 \<le> s2 \<and> s1 - q * s2 \<le> 0) \<or> (s2 \<le> 0 \<and> 0 \<le> s1 - q * s2)"
proof -
  from assms consider (a) "0 \<le> s1" "s2 \<le> 0" | (b) "s1 \<le> 0" "0 \<le> s2" by blast
  then have "\<bar>s1 - q * s2\<bar> = \<bar>s1\<bar> + q * \<bar>s2\<bar>
      \<and> ((0 \<le> s2 \<and> s1 - q * s2 \<le> 0) \<or> (s2 \<le> 0 \<and> 0 \<le> s1 - q * s2))"
  proof cases
    case a
    then have "q * s2 \<le> 0" using assms(2) by (simp add: mult_nonneg_nonpos)
    with a show ?thesis by (simp add: abs_if algebra_simps)
  next
    case b
    then have "0 \<le> q * s2" using assms(2) by simp
    with b show ?thesis by (simp add: abs_if algebra_simps)
  qed
  then show "\<bar>s1 - q * s2\<bar> = \<bar>s1\<bar> + q * \<bar>s2\<bar>"
    and "(0 \<le> s2 \<and> s1 - q * s2 \<le> 0) \<or> (s2 \<le> 0 \<and> 0 \<le> s1 - q * s2)"
    by simp_all
qed

lemma inverseMod_loop_invariant:
  assumes "0 \<le> dividend" and "0 < divisor"
    and "remainder = dividend mod divisor" and "quot = dividend div divisor"
    and "s3 = s1 - quot * s2"
    and "n dvd s1 * a - dividend" and "n dvd s2 * a - divisor"
    and "\<bar>s2\<bar> * dividend + \<bar>s1\<bar> * divisor = n"
    and "(0 \<le> s1 \<and> s2 \<le> 0) \<or> (s1 \<le> 0 \<and> 0 \<le> s2)"
    and "s2 = 0 \<or> divisor < dividend"
    and "inverseMod_loop dividend divisor remainder quot s1 s2 s3 = (d, s)"
  shows "d = gcd dividend divisor \<and> n dvd s * a - d \<and> (d = 1 \<and> 1 < n \<longrightarrow> \<bar>s\<bar> < n)"
  using assms
proof (induction dividend divisor remainder quot s1 s2 s3 rule: inverseMod_loop.induct)
  case (1 dividend divisor remainder quot s1 s2 s3)
  show ?case
  proof (cases "remainder = 0")
    case True
    with "1.prems"(11) have ds: "d = divisor" "s = s2"
      by (simp_all add: inverseMod_loop.simps)
    from True "1.prems"(3) have "divisor dvd dividend" by (simp add: mod_eq_0_iff_dvd)
    then have g: "gcd dividend divisor = divisor"
      using "1.prems"(2) by (simp add: gcd_proj2_if_dvd)
    have "\<bar>s2\<bar> < n" if "divisor = 1" "1 < n"
    proof (cases "s2 = 0")
      case True
      with that show ?thesis by simp
    next
      case False
      with "1.prems"(10) that have "2 \<le> dividend" by simp
      then have "\<bar>s2\<bar> * 2 \<le> \<bar>s2\<bar> * dividend" by (simp add: mult_left_mono)
      also have "\<dots> \<le> n" using "1.prems"(8) that by simp
      finally show ?thesis using that(2) by simp
    qed
    with ds g "1.prems"(7) show ?thesis by simp
  next
    case False
    define remainder' where "remainder' = divisor smod remainder"
    define quot' where "quot' = divisor sdiv remainder"
    define s3' where "s3' = s2 - quot' * s3"
    have "0 \<le> dividend mod divisor" "dividend mod divisor < divisor"
      using "1.prems"(2) by simp_all
    with False "1.prems"(3) have rpos: "0 < remainder" "remainder < divisor"
      by simp_all
    have qnn: "0 \<le> quot"
      using "1.prems"(1,2,4) by (simp add: pos_imp_zdiv_nonneg_iff)
    have r': "remainder' = divisor mod remainder"
      using rpos "1.prems"(2) by (simp add: remainder'_def smod_nonneg)
    have q': "quot' = divisor div remainder"
      using rpos "1.prems"(2)
      by (simp add: quot'_def signed_divide_int_def sgn_if)
    have rem: "remainder = dividend - quot * divisor"
      using "1.prems"(3,4) by (simp add: minus_div_mult_eq_mod)
    have next_loop: "inverseMod_loop divisor remainder remainder' quot' s2 s3 s3' = (d, s)"
      using "1.prems"(11) False
      by (subst (asm) inverseMod_loop.simps) (simp add: Let_def remainder'_def quot'_def s3'_def)
    have c2: "n dvd s3 * a - remainder"
    proof -
      have "s3 * a - remainder = (s1 * a - dividend) - quot * (s2 * a - divisor)"
        by (simp add: "1.prems"(5) rem algebra_simps)
      then show ?thesis using "1.prems"(6,7) by simp
    qed
    have b: "\<bar>s3\<bar> * divisor + \<bar>s2\<bar> * remainder = n"
    proof -
      have "\<bar>s3\<bar> = \<bar>s1\<bar> + quot * \<bar>s2\<bar>"
        unfolding "1.prems"(5) using abs_bezout_step(1) [OF "1.prems"(9) qnn] .
      then have "\<bar>s3\<bar> * divisor + \<bar>s2\<bar> * remainder
          = \<bar>s2\<bar> * dividend + \<bar>s1\<bar> * divisor"
        by (simp add: rem algebra_simps)
      with "1.prems"(8) show ?thesis by simp
    qed
    have sg: "(0 \<le> s2 \<and> s3 \<le> 0) \<or> (s2 \<le> 0 \<and> 0 \<le> s3)"
      unfolding "1.prems"(5) using abs_bezout_step(2) [OF "1.prems"(9) qnn] .
    have res: "d = gcd divisor remainder \<and> n dvd s * a - d \<and> (d = 1 \<and> 1 < n \<longrightarrow> \<bar>s\<bar> < n)"
    proof (rule "1.IH" [OF False refl refl refl refl refl refl refl])
      show "0 \<le> divisor" using "1.prems"(2) by simp
      show "0 < remainder" by (rule rpos)
      show "divisor smod remainder = divisor mod remainder"
        using r' by (simp add: remainder'_def)
      show "divisor sdiv remainder = divisor div remainder"
        using q' by (simp add: quot'_def)
      show "s2 - divisor sdiv remainder * s3 = s2 - divisor sdiv remainder * s3" by simp
      show "n dvd s2 * a - divisor" by (rule "1.prems"(7))
      show "n dvd s3 * a - remainder" by (rule c2)
      show "\<bar>s3\<bar> * divisor + \<bar>s2\<bar> * remainder = n" by (rule b)
      show "(0 \<le> s2 \<and> s3 \<le> 0) \<or> (s2 \<le> 0 \<and> 0 \<le> s3)" by (rule sg)
      show "s3 = 0 \<or> remainder < divisor" using rpos by simp
      show "inverseMod_loop divisor remainder (divisor smod remainder)
          (divisor sdiv remainder) s2 s3 (s2 - divisor sdiv remainder * s3) = (d, s)"
        using next_loop by (simp add: remainder'_def quot'_def s3'_def)
    qed
    have geq: "gcd dividend divisor = gcd divisor remainder"
      using "1.prems"(3) by (simp add: gcd.commute gcd_red_int [symmetric])
    show ?thesis unfolding geq by (rule res)
  qed
qed


lemma inverseMod_unfold:
  assumes "1 < \<bar>n0\<bar>" and n_def: "n = \<bar>n0\<bar>"
    and a_def: "a = (if a0 < 0 then a0 mod n else a0)"
  shows "inverseMod a0 n0 =
           (case inverseMod_loop a n (a mod n) (a div n) 1 0 1 of
              (d, s) \<Rightarrow> if d \<noteq> 1 then Inl NotRelativelyPrime
                        else if s < 0 then Inr (s + n) else Inr s)"
proof -
  have npos: "0 < n" using assms(1) by (simp add: n_def)
  have n': "(if n0 < 0 then n0 * (- 1) else n0) = n" by (simp add: n_def)
  have ann: "0 \<le> a" using npos by (simp add: a_def)
  have a': "(if a0 < 0 then euclideanMod a0 n else Inr a0) = Inr a"
    using npos by (simp add: a_def euclideanMod_pos)
  have r: "bigint_rem a n = Inr (a mod n)"
    using npos ann by (simp add: bigint_rem_def smod_nonneg)
  have q: "bigint_div a n = Inr (a div n)"
    using npos ann by (simp add: bigint_div_def signed_divide_int_def sgn_if)
  show ?thesis
    unfolding inverseMod_def n' Let_def a' bindE_simps r q by simp
qed

lemma inverseMod_cases:
  assumes "1 < \<bar>n\<bar>"
  shows "(gcd a n \<noteq> 1 \<and> inverseMod a n = Inl NotRelativelyPrime) \<or>
         (gcd a n = 1 \<and>
            (\<exists>s. inverseMod a n = Inr s \<and> 0 \<le> s \<and> s < \<bar>n\<bar> \<and> (a * s) mod \<bar>n\<bar> = 1))"
proof -
  define m where "m = \<bar>n\<bar>"
  define b where "b = (if a < 0 then a mod m else a)"
  have mpos: "0 < m" "1 < m" using assms by (simp_all add: m_def)
  have bnn: "0 \<le> b" using mpos by (simp add: b_def)
  have bcong: "b mod m = a mod m" by (simp add: b_def)
  obtain d s where loop: "inverseMod_loop b m (b mod m) (b div m) 1 0 1 = (d, s)"
    by (cases "inverseMod_loop b m (b mod m) (b div m) 1 0 1") blast
  have inv: "d = gcd b m \<and> m dvd s * b - d \<and> (d = 1 \<and> 1 < m \<longrightarrow> \<bar>s\<bar> < m)"
    by (rule inverseMod_loop_invariant [OF bnn mpos(1) refl refl _ _ _ _ _ _ loop]) simp_all
  have "gcd b m = gcd a m"
    using bcong by (metis gcd.commute gcd_red_int)
  then have d: "d = gcd a n" using inv by (simp add: m_def)
  have res: "inverseMod a n =
      (if d \<noteq> 1 then Inl NotRelativelyPrime else if s < 0 then Inr (s + m) else Inr s)"
    using inverseMod_unfold [OF assms m_def b_def] loop by simp
  show ?thesis
  proof (cases "d = 1")
    case False
    with res d show ?thesis by simp
  next
    case True
    define t where "t = (if s < 0 then s + m else s)"
    from inv have "m dvd s * b - d" and "d = 1 \<and> 1 < m \<longrightarrow> \<bar>s\<bar> < m" by blast+
    with True mpos have sb: "\<bar>s\<bar> < m" and dv: "m dvd s * b - 1" by simp_all
    from sb have t: "0 \<le> t" "t < m" by (auto simp: t_def)
    have "(s * b) mod m = 1 mod m"
      using dv by (metis mod_eq_dvd_iff)
    moreover have "(a * t) mod m = (s * b) mod m"
    proof -
      have "t mod m = s mod m" by (simp add: t_def)
      then have "(a * t) mod m = (a * s) mod m" by (metis mod_mult_right_eq)
      also have "\<dots> = (b * s) mod m" using bcong by (metis mod_mult_left_eq)
      finally show ?thesis by (simp add: mult.commute)
    qed
    ultimately have "(a * t) mod m = 1" using mpos by simp
    moreover have "inverseMod a n = Inr t" using res True by (simp add: t_def)
    ultimately show ?thesis using t d True by (auto simp: m_def)
  qed
qed

text \<open>
  C6. For every integer \<open>a\<close> and every modulus \<open>n\<close> with \<open>|n| > 1\<close>: when \<open>gcd(a, n) = 1\<close>,
  \<open>inverseMod a n\<close> returns some \<open>s\<close> with \<open>0 \<le> s < |n|\<close> and \<open>a * s \<equiv> 1 (mod n)\<close>; when
  \<open>gcd(a, n) \<noteq> 1\<close>, which includes \<open>a \<equiv> 0\<close>, it raises its "not relatively prime" error.
\<close>

theorem inverseMod_correct:
  assumes "1 < \<bar>n\<bar>"
  shows "(gcd a n = 1 \<longrightarrow>
            (\<exists>s. inverseMod a n = Inr s \<and> 0 \<le> s \<and> s < \<bar>n\<bar> \<and> (a * s) mod \<bar>n\<bar> = 1)) \<and>
         (gcd a n \<noteq> 1 \<longrightarrow> inverseMod a n = Inl NotRelativelyPrime)"
  using inverseMod_cases [OF assms, of a] by auto

theorem inverseMod_correct_witness:
  "(1::int) < \<bar>7\<bar> \<and> gcd (3::int) 7 = 1 \<and> inverseMod 3 7 = Inr 5 \<and> (3 * 5) mod \<bar>7\<bar> = (1::int) \<and>
   (1::int) < \<bar>9\<bar> \<and> gcd (6::int) 9 \<noteq> 1 \<and> inverseMod 6 9 = Inl NotRelativelyPrime \<and>
   gcd (0::int) 7 \<noteq> 1 \<and> inverseMod 0 7 = Inl NotRelativelyPrime"
proof -
  have a: "(1::int) < \<bar>7\<bar>" and b: "(1::int) < \<bar>9\<bar>" by simp_all
  have g: "gcd (3::int) 7 = 1" "gcd (6::int) 9 \<noteq> 1" "gcd (0::int) 7 \<noteq> 1" by code_simp+
  have e: "inverseMod 3 7 = Inr 5" by code_simp
  show ?thesis
    using inverseMod_correct [OF a, of 3] inverseMod_correct [OF b, of 6]
      inverseMod_correct [OF a, of 0] g e
    by simp
qed

section \<open>Totality of the field operations\<close>

lemma euclideanMod_total: "y \<noteq> 0 \<Longrightarrow> \<exists>r. euclideanMod x y = Inr r"
  by (simp add: euclideanMod_def bigint_rem_def)

lemma powmod_loop_total: "p \<noteq> 0 \<Longrightarrow> \<exists>r. powmod_loop res x y p = Inr r"
proof (induction res x y p rule: powmod_loop.induct)
  case (1 res x y p)
  show ?case
  proof (cases "y > 0")
    case False
    then show ?thesis by (simp add: powmod_loop.simps)
  next
    case True
    obtain res' where res': "(if y smod 2 = 1 then euclideanMod (res * x) p else Inr res) = Inr res'"
      using euclideanMod_total [OF "1.prems", of "res * x"] by (cases "y smod 2 = 1") auto
    obtain x' where x': "euclideanMod (x * x) p = Inr x'"
      using euclideanMod_total [OF "1.prems"] by blast
    from "1.IH" [OF True res' x' "1.prems"] True res' x' show ?thesis
      by (subst powmod_loop.simps) simp
  qed
qed

lemma powmod_total: "p \<noteq> 0 \<Longrightarrow> \<exists>r. powmod x y p = Inr r"
  by (simp add: powmod_def bigint_rem_def powmod_loop_total)

text \<open>
  The short path of \<open>tonelliShanks\<close> returns a number for every input: it cannot raise
  "Cannot find square root", whatever \<open>n\<close> is.
\<close>

lemma tonelliShanks_short_path_returns:
  assumes "p smod 4 = 3"
  shows "\<exists>r. tonelliShanks n p = Some (Inr r)"
proof -
  from assms have "p \<noteq> 0" by auto
  then show ?thesis using assms by (simp add: tonelliShanks_def powmod_total)
qed

section \<open>Scalar multiplication by 0 and by 1\<close>

lemma euclideanMod_nonzero:
  "y \<noteq> 0 \<Longrightarrow> euclideanMod x y = Inr (if x smod y < 0 then x smod y + y else x smod y)"
  by (simp add: euclideanMod_def bigint_rem_def)

lemma doubleJacobian_total:
  "curve_p curve \<noteq> 0 \<Longrightarrow> \<exists>point'. doubleJacobian curve point = Inr point'"
  by (simp add: doubleJacobian_def euclideanMod_nonzero)

text \<open>
  On every curve with a non-zero modulus, \<open>multiply 0 P\<close> is the identity; on every curve
  with a modulus above 1, \<open>multiply 1 P\<close> is \<open>P\<close> for every point with reduced
  coordinates.
\<close>

lemma multiply_zero:
  assumes "curve_p curve \<noteq> 0"
  shows "multiply curve 0 point = Inr None"
proof -
  obtain temp' where d:
    "doubleJacobian curve \<lparr>jac_x = point_x point, jac_y = point_y point, jac_z = 1\<rparr> = Inr temp'"
    using doubleJacobian_total [OF assms] by blast
  have "multiply_loop curve [0] 1 0 pointAtInfinity
          \<lparr>jac_x = point_x point, jac_y = point_y point, jac_z = 1\<rparr> = Inr pointAtInfinity"
    by (subst multiply_loop.simps, simp add: byte_at_def d, subst multiply_loop.simps, simp)
  moreover have "bigIntBytes 0 = [0]"
    by (simp add: bigIntBytes_def bigIntBytes_nat.simps)
  moreover have "toString2_length 0 = 1"
    by (simp add: toString2_length_def binary_digits.simps)
  ultimately show ?thesis
    by (simp add: multiply_def toAffine_def isAtInfinity_def pointAtInfinity_def)
qed

lemma inverseMod_one:
  assumes "1 < p"
  shows "inverseMod 1 p = Inr 1"
proof -
  from assms have "1 < \<bar>p\<bar>" by simp
  from inverseMod_cases [OF this, of 1] obtain s
    where s: "inverseMod 1 p = Inr s" "0 \<le> s" "s < \<bar>p\<bar>" "(1 * s) mod \<bar>p\<bar> = 1"
    by auto
  with assms have "s = 1" by simp
  with s show ?thesis by simp
qed

lemma multiply_one:
  assumes "1 < curve_p curve"
    and "0 \<le> point_x point" "point_x point < curve_p curve"
    and "0 \<le> point_y point" "point_y point < curve_p curve"
  shows "multiply curve 1 point = Inr (Some \<lparr>point_x = point_x point, point_y = point_y point\<rparr>)"
proof -
  define temp where "temp = \<lparr>jac_x = point_x point, jac_y = point_y point, jac_z = 1\<rparr>"
  have p0: "curve_p curve \<noteq> 0" using assms(1) by simp
  obtain temp' where d: "doubleJacobian curve temp = Inr temp'"
    using doubleJacobian_total [OF p0] by blast
  have a: "addJacobian curve pointAtInfinity temp = Inr temp"
    by (simp add: addJacobian_def isAtInfinity_def pointAtInfinity_def)
  have "multiply_loop curve [1] 1 0 pointAtInfinity temp = Inr temp"
    by (subst multiply_loop.simps, simp add: byte_at_def d a, subst multiply_loop.simps, simp)
  moreover have "bigIntBytes 1 = [1]"
    by (simp add: bigIntBytes_def bigIntBytes_nat.simps)
  moreover have "toString2_length 1 = 1"
    by (simp add: toString2_length_def binary_digits.simps)
  moreover have "toAffine curve temp
      = Inr (Some \<lparr>point_x = point_x point, point_y = point_y point\<rparr>)"
    using assms
    by (simp add: toAffine_def isAtInfinity_def temp_def inverseMod_one euclideanMod_pos)
  ultimately show ?thesis
    by (simp add: multiply_def temp_def [symmetric])
qed

section \<open>The uncompressed SEC1 round trip\<close>

lemma bigIntFromBytes_bigIntBytes_nat: "bigIntFromBytes (bigIntBytes_nat v) = int v"
proof (induction v rule: bigIntBytes_nat.induct)
  case (1 v)
  show ?case
  proof (cases "v < 256")
    case True
    then have "uint (of_nat v :: 8 word) = int v"
      by (simp add: uint_nat unat_of_nat)
    with True show ?thesis
      by (subst bigIntBytes_nat.simps) (simp add: bigIntFromBytes_def)
  next
    case False
    have "uint (of_nat (v mod 256) :: 8 word) = int (v mod 256)"
      by (simp add: uint_nat unat_of_nat)
    with False "1.IH" show ?thesis
      by (subst bigIntBytes_nat.simps) (simp add: bigIntFromBytes_snoc zmod_int zdiv_int)
  qed
qed

lemma length_bigIntBytes_nat: "v < 256 ^ k \<Longrightarrow> 0 < k \<Longrightarrow> length (bigIntBytes_nat v) \<le> k"
proof (induction v arbitrary: k rule: bigIntBytes_nat.induct)
  case (1 v)
  show ?case
  proof (cases "v < 256")
    case True
    with "1.prems" show ?thesis by (subst bigIntBytes_nat.simps) simp
  next
    case False
    with "1.prems" have "k \<noteq> 1" by auto
    with "1.prems" obtain j where k: "k = Suc j" "0 < j" by (cases k) auto
    from "1.prems"(1) k have "v div 256 < 256 ^ j"
      by (simp add: less_mult_imp_div_less mult.commute)
    from "1.IH" [OF False this k(2)] False k show ?thesis
      by (subst bigIntBytes_nat.simps) simp
  qed
qed

lemma length_bigIntBytes_nat_pos: "0 < length (bigIntBytes_nat v)"
  by (subst bigIntBytes_nat.simps) simp

lemma bigIntFromBytes_append:
  "bigIntFromBytes (as @ bs) = foldl (\<lambda>decoded b. decoded * 256 + uint b) (bigIntFromBytes as) bs"
  by (simp add: bigIntFromBytes_def)

lemma bigIntFromBytes_zeros: "bigIntFromBytes (replicate k 0) = 0"
  by (induction k) (simp_all add: bigIntFromBytes_def)

lemma bigIntFromBytes_padded: "bigIntFromBytes (replicate k 0 @ bs) = bigIntFromBytes bs"
  by (simp add: bigIntFromBytes_append bigIntFromBytes_zeros) (simp add: bigIntFromBytes_def)

text \<open>
  The uncompressed encoding of a key with coordinates in \<open>[0, 256 ^ size)\<close>, which
  covers \<open>[0, p)\<close> on every registry curve, decodes to the same key.
\<close>

lemma decodeSEC1_encodeSEC1Uncompressed:
  assumes size: "0 < curve_size (key_curve key)"
    and x: "0 \<le> key_x key" "key_x key < 256 ^ curve_size (key_curve key)"
    and y: "0 \<le> key_y key" "key_y key < 256 ^ curve_size (key_curve key)"
  shows "\<exists>bytes. encodeSEC1Uncompressed key = Inr bytes \<and>
           decodeSEC1PublicKey (key_curve key) bytes
             = Some (Inr \<lparr>key_curve = key_curve key, key_x = key_x key, key_y = key_y key\<rparr>)"
proof -
  define n where "n = curve_size (key_curve key)"
  define xBytes where "xBytes = bigIntBytes (key_x key)"
  define yBytes where "yBytes = bigIntBytes (key_y key)"
  have npos: "0 < n" using size by (simp add: n_def)
  have "nat \<bar>key_x key\<bar> < 256 ^ n"
    using x by (simp add: n_def nat_less_iff)
  then have lx: "length xBytes \<le> n"
    unfolding xBytes_def bigIntBytes_def by (rule length_bigIntBytes_nat) (rule npos)
  have "nat \<bar>key_y key\<bar> < 256 ^ n"
    using y by (simp add: n_def nat_less_iff)
  then have ly: "length yBytes \<le> n"
    unfolding yBytes_def bigIntBytes_def by (rule length_bigIntBytes_nat) (rule npos)
  have vx: "bigIntFromBytes xBytes = key_x key"
    using x by (simp add: xBytes_def bigIntBytes_def bigIntFromBytes_bigIntBytes_nat)
  have vy: "bigIntFromBytes yBytes = key_y key"
    using y by (simp add: yBytes_def bigIntBytes_def bigIntFromBytes_bigIntBytes_nat)
  define bytes0 :: bytes where "bytes0 = (replicate (1 + n * 2) 0) [0 := 0x04]"
  have b0: "bytes0 = 0x04 # replicate (n * 2) 0"
    by (simp add: bytes0_def)
  define bytes1 where "bytes1 = 0x04 # replicate (n - length xBytes) 0 @ xBytes @ replicate n 0"
  have s1: "typed_set bytes0 xBytes (1 + int n - int (length xBytes)) = Inr bytes1"
  proof -
    have off: "nat (1 + int n - int (length xBytes)) = Suc (n - length xBytes)"
      using lx by simp
    have "n * 2 - (n - length xBytes) - length xBytes = n" using lx by simp
    then show ?thesis
      using lx by (simp add: typed_set_def b0 off bytes1_def)
  qed
  define bytes2 where
    "bytes2 = 0x04 # (replicate (n - length xBytes) 0 @ xBytes)
                @ (replicate (n - length yBytes) 0 @ yBytes)"
  have s2: "typed_set bytes1 yBytes (1 + int n * 2 - int (length yBytes)) = Inr bytes2"
  proof -
    have off: "nat (1 + int n * 2 - int (length yBytes)) = Suc (n + (n - length yBytes))"
      using ly by simp
    have len1: "length bytes1 = Suc (n + n)" using lx by (simp add: bytes1_def)
    have "take (n + (n - length yBytes)) (replicate (n - length xBytes) 0 @ xBytes @ replicate n 0)
        = (replicate (n - length xBytes) 0 @ xBytes) @ replicate (n - length yBytes) 0"
      using lx ly by simp
    then show ?thesis
      using lx ly by (simp add: typed_set_def off bytes1_def bytes2_def)
  qed
  have enc: "encodeSEC1Uncompressed key = Inr bytes2"
    using s1 [unfolded b0] s2
    by (simp add: encodeSEC1Uncompressed_def Let_def n_def [symmetric] xBytes_def [symmetric]
        yBytes_def [symmetric])
  have len2: "length bytes2 = 2 * n + 1" using lx ly by (simp add: bytes2_def)
  have hd2: "bytes2 ! 0 = 0x04" by (simp add: bytes2_def)
  have tx: "take n (drop (Suc 0) bytes2) = replicate (n - length xBytes) 0 @ xBytes"
    using lx by (simp add: bytes2_def)
  have ty: "drop (Suc n) bytes2 = replicate (n - length yBytes) 0 @ yBytes"
    using lx by (simp add: bytes2_def)
  have "decodeSEC1PublicKey (key_curve key) bytes2
      = Some (Inr \<lparr>key_curve = key_curve key, key_x = key_x key, key_y = key_y key\<rparr>)"
    using len2 hd2
    by (simp add: decodeSEC1PublicKey_def Let_def n_def [symmetric] tx ty
        bigIntFromBytes_padded vx vy)
  with enc show ?thesis by blast
qed

section \<open>Where the code departs from its documentation\<close>

text \<open>
  The verifier calls \<open>inverseMod\<close> outside any handler, and it has no range check on
  \<open>s\<close>: once the key has passed the two curve checks, a signature whose \<open>s\<close> shares a
  factor with the curve order makes the call raise instead of returning \<open>false\<close>.
\<close>

lemma verify_raises_when_s_not_invertible:
  assumes on: "isOnCurve (key_curve publicKey)
                 \<lparr>point_x = key_x publicKey, point_y = key_y publicKey\<rparr> = Inr True"
    and sub: "multiply (key_curve publicKey) (curve_n (key_curve publicKey))
                 \<lparr>point_x = key_x publicKey, point_y = key_y publicKey\<rparr> = Inr None"
    and n: "1 < \<bar>curve_n (key_curve publicKey)\<bar>"
    and g: "gcd (sig_s signature) (curve_n (key_curve publicKey)) \<noteq> 1"
  shows "verifyECDSASignature publicKey hash signature = Inl NotRelativelyPrime"
proof -
  have "inverseMod (sig_s signature) (curve_n (key_curve publicKey)) = Inl NotRelativelyPrime"
    using inverseMod_cases [OF n, of "sig_s signature"] g by simp
  then show ?thesis
    by (simp add: verifyECDSASignature_def Let_def on sub)
qed

text \<open>
  C1. Evaluation at the signature \<open>(r, s) = (1, n)\<close> on the small curve, with the base
  point as public key: the key is on the curve and in the subgroup, the constructor
  accepts the signature, \<open>inverseMod n n\<close> raises, and \<open>verifyECDSASignature\<close> ends with
  that error, not with a boolean.
\<close>

theorem verify_raises_at_s_equal_n:
  "isOnCurve curve_F11 \<lparr>point_x = 6, point_y = 2\<rparr> = Inr True \<and>
   multiply curve_F11 (curve_n curve_F11) \<lparr>point_x = 6, point_y = 2\<rparr> = Inr None \<and>
   new_ECDSASignature 1 (curve_n curve_F11) = Inr \<lparr>sig_r = 1, sig_s = 7\<rparr> \<and>
   inverseMod 7 (curve_n curve_F11) = Inl NotRelativelyPrime \<and>
   verifyECDSASignature \<lparr>key_curve = curve_F11, key_x = 6, key_y = 2\<rparr> [1]
     \<lparr>sig_r = 1, sig_s = 7\<rparr> = Inl NotRelativelyPrime"
  by code_simp

text \<open>
  C2. Evaluation of a signature made by the textbook signing rule (private key 3, nonce 2,
  \<open>r = R.x mod n\<close>) on the small curve, where \<open>n = 7 < p = 11\<close>: every step up to the sum
  \<open>R = u1 G + u2 Q = (10, 9)\<close> succeeds and \<open>r = 3\<close> is congruent to \<open>R.x = 10\<close> modulo 7, yet
  the result is \<open>false\<close>, because the last line compares \<open>r mod n\<close> with the unreduced
  \<open>R.x\<close>.
\<close>

theorem verify_rejects_x_above_n:
  "isOnCurve curve_F11 \<lparr>point_x = 7, point_y = 10\<rparr> = Inr True \<and>
   multiply curve_F11 7 \<lparr>point_x = 7, point_y = 10\<rparr> = Inr None \<and>
   inverseMod 5 7 = Inr 3 \<and>
   euclideanMod (bigIntFromBytes [1] * 3) 7 = Inr 3 \<and>
   multiply curve_F11 3 \<lparr>point_x = 6, point_y = 2\<rparr> = Inr (Some \<lparr>point_x = 7, point_y = 10\<rparr>) \<and>
   euclideanMod (3 * 3) 7 = Inr 2 \<and>
   multiply curve_F11 2 \<lparr>point_x = 7, point_y = 10\<rparr> = Inr (Some \<lparr>point_x = 6, point_y = 9\<rparr>) \<and>
   add curve_F11 \<lparr>point_x = 7, point_y = 10\<rparr> \<lparr>point_x = 6, point_y = 9\<rparr>
     = Inr (Some \<lparr>point_x = 10, point_y = 9\<rparr>) \<and>
   (3::int) mod 7 = 10 mod 7 \<and>
   verifyECDSASignature \<lparr>key_curve = curve_F11, key_x = 7, key_y = 10\<rparr> [1]
     \<lparr>sig_r = 3, sig_s = 5\<rparr> = Inr False"
  by code_simp

subsection \<open>Square roots\<close>

lemma no_square_root_of_3_mod_7: "\<not> (\<exists>r::int. (r * r) mod 7 = 3)"
proof
  assume "\<exists>r::int. (r * r) mod 7 = 3"
  then obtain r :: int where r: "(r * r) mod 7 = 3" ..
  have "0 \<le> r mod 7" "r mod 7 < 7" by simp_all
  then have "r mod 7 \<in> {0, 1, 2, 3, 4, 5, 6}" by (simp, arith)
  moreover have "(r * r) mod 7 = ((r mod 7) * (r mod 7)) mod 7"
    by (simp add: mod_mult_eq)
  ultimately show False using r by auto
qed

lemma no_square_root_of_7_mod_11: "\<not> (\<exists>r::int. (r * r) mod 11 = 7)"
proof
  assume "\<exists>r::int. (r * r) mod 11 = 7"
  then obtain r :: int where r: "(r * r) mod 11 = 7" ..
  have "0 \<le> r mod 11" "r mod 11 < 11" by simp_all
  then have "r mod 11 \<in> {0, 1, 2, 3, 4, 5, 6, 7, 8, 9, 10}" by (simp, arith)
  moreover have "(r * r) mod 11 = ((r mod 11) * (r mod 11)) mod 11"
    by (simp add: mod_mult_eq)
  ultimately show False using r by auto
qed

text \<open>
  C3. When \<open>p mod 4 = 3\<close>, \<open>tonelliShanks\<close> returns \<open>n ^ ((p + 1) / 4) mod p\<close> without any
  residue test. Evaluation: 3 has no square root modulo 7, and \<open>tonelliShanks 3 7\<close> returns
  2, whose square is 4. On the small curve (\<open>p = 11\<close>) the compressed encoding \<open>02 00\<close>
  has \<open>y\<^sup>2 = 7\<close>, which has no square root modulo 11, and \<open>decodeSEC1PublicKey\<close> returns
  the key \<open>(0, 2)\<close>, a point that is not on the curve.
\<close>

theorem tonelliShanks_returns_on_non_residue:
  "\<not> (\<exists>r::int. (r * r) mod 7 = 3) \<and>
   tonelliShanks 3 7 = Some (Inr 2) \<and>
   (2 * 2) mod 7 \<noteq> (3::int) \<and>
   \<not> (\<exists>r::int. (r * r) mod 11 = 7) \<and>
   euclideanMod (bigIntFromBytes [0] ^ 3 + curve_a curve_F11 * bigIntFromBytes [0]
      + curve_b curve_F11) (curve_p curve_F11) = Inr 7 \<and>
   decodeSEC1PublicKey curve_F11 [0x02, 0]
     = Some (Inr \<lparr>key_curve = curve_F11, key_x = 0, key_y = 2\<rparr>) \<and>
   isOnCurve curve_F11 \<lparr>point_x = 0, point_y = 2\<rparr> = Inr False"
proof -
  have "tonelliShanks 3 7 = Some (Inr 2)" by code_simp
  moreover have "(2 * 2) mod 7 \<noteq> (3::int)" by simp
  moreover have "euclideanMod (bigIntFromBytes [0] ^ 3 + curve_a curve_F11 * bigIntFromBytes [0]
      + curve_b curve_F11) (curve_p curve_F11) = Inr 7" by code_simp
  moreover have "decodeSEC1PublicKey curve_F11 [0x02, 0]
     = Some (Inr \<lparr>key_curve = curve_F11, key_x = 0, key_y = 2\<rparr>)" by code_simp
  moreover have "isOnCurve curve_F11 \<lparr>point_x = 0, point_y = 2\<rparr> = Inr False" by code_simp
  ultimately show ?thesis
    using no_square_root_of_3_mod_7 no_square_root_of_7_mod_11 by blast
qed

text \<open>
  C4. Evaluation at \<open>x = 0\<close> and the odd prime \<open>p = 5\<close> (\<open>p mod 4 = 1\<close>): \<open>x\<^sup>2 mod p = 0\<close> has
  the square root 0, but the main loop has no case for \<open>t = 0\<close> and \<open>tonelliShanks 0 5\<close>
  raises "Cannot find square root". The short path for \<open>p mod 4 = 3\<close> returns the root:
  \<open>tonelliShanks 0 7\<close> is 0.
\<close>

theorem tonelliShanks_raises_on_zero:
  "\<not> (\<exists>m::int. 1 < m \<and> m < 5 \<and> m dvd 5) \<and>
   (0 * 0) mod 5 = (0::int) \<and>
   tonelliShanks ((0 * 0) mod 5) 5 = Some (Inl CannotFindSquareRoot) \<and>
   tonelliShanks ((0 * 0) mod 7) 7 = Some (Inr 0)"
proof -
  have "\<not> (\<exists>m::int. 1 < m \<and> m < 5 \<and> m dvd 5)"
  proof
    assume "\<exists>m::int. 1 < m \<and> m < 5 \<and> m dvd 5"
    then obtain m :: int where "1 < m" "m < 5" "m dvd 5" by blast
    then have "m \<in> {2, 3, 4}" by auto
    with \<open>m dvd 5\<close> show False by auto
  qed
  moreover have "tonelliShanks ((0 * 0) mod 5) 5 = Some (Inl CannotFindSquareRoot)" by code_simp
  moreover have "tonelliShanks ((0 * 0) mod 7) 7 = Some (Inr 0)" by code_simp
  ultimately show ?thesis by simp
qed

end
